theory Spec2Isabelle
  imports Main "HOL-Library.Char_ord" "HOL-Library.List_Lexorder"
begin

section \<open>The syntax tree handed over by the SQL parser\<close>

text \<open>
  \<open>parse_query\<close> in \<^verbatim>\<open>column.py\<close> hands its argument to the SQL parser and works on
  the tree it gets back; the model starts from that tree. The function only looks at
  four kinds of node and at the string attributes \<^verbatim>\<open>alias\<close>, \<^verbatim>\<open>name\<close> and
  \<^verbatim>\<open>table\<close> of them. An attribute that is absent reads as the empty string, which
  Python treats as false.
\<close>

datatype node =
    is_CTE: CTE (alias': string)
  | is_Table: Table (name: string) (alias': string)
  | is_Subquery: Subquery (alias': string)
  | is_Column: Column (name: string) (table: string) (alias': string)
  | Other

datatype expression = Expression node "expression list"

text \<open>The traversal behind \<^verbatim>\<open>find_all\<close>: breadth first, the parser library's default.\<close>

fun nodes :: "expression \<Rightarrow> nat" where
  "nodes (Expression n cs) = Suc (sum_list (map nodes cs))"

function walk :: "expression list \<Rightarrow> node list" where
  "walk [] = []"
| "walk (Expression n cs # queue) = n # walk (queue @ cs)"
  by pat_completeness auto
termination
  by (relation "measure (\<lambda>queue. sum_list (map nodes queue))") auto

definition find_all :: "(node \<Rightarrow> bool) \<Rightarrow> expression \<Rightarrow> node list" where
  "find_all kind tree = filter kind (walk [tree])"

definition truthy :: "string \<Rightarrow> bool" where
  "truthy s = (s \<noteq> [])"

definition alias_or_name :: "node \<Rightarrow> string" where
  "alias_or_name c = (if truthy (alias' c) then alias' c else name c)"

section \<open>The result dictionary\<close>

record entry =
  table_name :: string
  columns :: "string list"

text \<open>
  A Python dict keeps its keys in the order of their first insertion; a store to a
  key that is already there replaces the value and leaves the position alone.
\<close>

type_synonym info_map = "(string \<times> entry) list"

fun setitem :: "info_map \<Rightarrow> string \<Rightarrow> entry \<Rightarrow> info_map" where
  "setitem [] k v = [(k, v)]"
| "setitem ((k', v') # d) k v =
     (if k' = k then (k, v) # d else (k', v') # setitem d k v)"

definition contains :: "info_map \<Rightarrow> string \<Rightarrow> bool" where
  "contains d k = (k \<in> set (map fst d))"

fun getitem :: "info_map \<Rightarrow> string \<Rightarrow> entry option" where
  "getitem [] k = None"
| "getitem ((k', v') # d) k = (if k' = k then Some v' else getitem d k)"

text \<open>\<^verbatim>\<open>info[k]["columns"] = cs\<close>: the inner dict is changed in place.\<close>

fun set_columns :: "info_map \<Rightarrow> string \<Rightarrow> string list \<Rightarrow> info_map" where
  "set_columns [] k cs = []"
| "set_columns ((k', v') # d) k cs =
     (if k' = k then (k', v'\<lparr>columns := cs\<rparr>) # d else (k', v') # set_columns d k cs)"

definition get_columns :: "info_map \<Rightarrow> string \<Rightarrow> string list" where
  "get_columns d k = (case getitem d k of None \<Rightarrow> [] | Some e \<Rightarrow> columns e)"

section \<open>The local variables of \<open>parse_query\<close>\<close>

text \<open>
  \<open>alias_data\<close> is the loop variable of step 5, which the code reads again after the
  loop. It points at one of the inner dicts of \<open>info\<close>; since every key owns its own
  inner dict, the key stands for the pointer. \<open>None\<close> is the unbound variable.
\<close>

record env =
  parsed :: expression
  info :: info_map
  alias_data :: "string option"

datatype error = UnboundLocalError

text \<open>
  Steps 1 to 3 (lines 16 to 39) store a fresh inner dict under a key; step 4 (lines 42
  to 52) first stores one when the prefix is not yet a key and then appends to the
  column list of that key, which is therefore always present.
\<close>

definition new_entry :: "string \<Rightarrow> entry" where
  "new_entry tn = \<lparr>table_name = tn, columns = []\<rparr>"

definition cte_step :: "node \<Rightarrow> env \<Rightarrow> env" where
  "cte_step cte_expr s = s\<lparr>info := setitem (info s) (alias' cte_expr) (new_entry ''CTE'')\<rparr>"

definition table_qualifier :: "node \<Rightarrow> string" where
  "table_qualifier table_expr =
     (if truthy (alias' table_expr) then alias' table_expr else name table_expr)"

definition table_step :: "node \<Rightarrow> env \<Rightarrow> env" where
  "table_step table_expr s =
     s\<lparr>info := setitem (info s) (table_qualifier table_expr) (new_entry (name table_expr))\<rparr>"

definition subquery_step :: "node \<Rightarrow> env \<Rightarrow> env" where
  "subquery_step subq_expr s =
     (if truthy (alias' subq_expr)
      then s\<lparr>info := setitem (info s) (alias' subq_expr) (new_entry ''Subquery'')\<rparr>
      else s)"

definition column_step :: "node \<Rightarrow> env \<Rightarrow> env" where
  "column_step col_expr s =
     (if truthy (table col_expr)
      then (let a = table col_expr;
                d = (if \<not> contains (info s) a then setitem (info s) a (new_entry a)
                     else info s)
            in s\<lparr>info := set_columns d a (get_columns d a @ [name col_expr])\<rparr>)
      else s)"

text \<open>
  \<^verbatim>\<open>sorted(set(xs))\<close>: the order in which a Python set of strings is iterated changes
  from one interpreter run to the next, so it is a parameter \<open>it\<close> of the model.
\<close>

definition set_iteration :: "(string list \<Rightarrow> string list) \<Rightarrow> bool" where
  "set_iteration it = (\<forall>xs. distinct (it xs) \<and> set (it xs) = set xs)"

definition dedupe_step :: "(string list \<Rightarrow> string list) \<Rightarrow> string \<Rightarrow> env \<Rightarrow> env" where
  "dedupe_step it k s =
     s\<lparr>alias_data := Some k,
       info := set_columns (info s) k (sort (it (get_columns (info s) k)))\<rparr>"

text \<open>
  The body of \<open>parse_query\<close> from the parsed tree on: \<open>collect_sources\<close> is steps 1 to 3,
  \<open>collect\<close> adds step 4, \<open>dedupe\<close> is the loop of lines 55 and 56, \<open>fallback\<close> the
  statement of lines 57 and 58, which reads \<open>alias_data\<close> whether or not the loop has
  bound it.
\<close>

definition collect_sources :: "expression \<Rightarrow> env" where
  "collect_sources tree =
     (let s0 = \<lparr>parsed = tree, info = [], alias_data = None\<rparr>;
          s1 = fold cte_step (find_all is_CTE (parsed s0)) s0;
          s2 = fold table_step (find_all is_Table (parsed s1)) s1
      in fold subquery_step (find_all is_Subquery (parsed s2)) s2)"

definition collect :: "expression \<Rightarrow> env" where
  "collect tree =
     (let s3 = collect_sources tree
      in fold column_step (find_all is_Column (parsed s3)) s3)"

definition dedupe :: "(string list \<Rightarrow> string list) \<Rightarrow> env \<Rightarrow> env" where
  "dedupe it s = fold (dedupe_step it) (map fst (info s)) s"

definition fallback :: "env \<Rightarrow> error + env" where
  "fallback s =
     (case alias_data s of
        None \<Rightarrow> Inl UnboundLocalError
      | Some k \<Rightarrow>
          if length (get_columns (info s) k) = 0
          then Inr (s\<lparr>info := set_columns (info s) k
                               (map alias_or_name (find_all is_Column (parsed s)))\<rparr>)
          else Inr s)"

text \<open>The test of line 57 on its own, on the state the loop of step 5 leaves behind.\<close>

definition fallback_fires :: "env \<Rightarrow> bool" where
  "fallback_fires s =
     (case alias_data s of
        None \<Rightarrow> False
      | Some k \<Rightarrow> length (get_columns (info s) k) = 0)"

definition run :: "(string list \<Rightarrow> string list) \<Rightarrow> expression \<Rightarrow> error + env" where
  "run it tree = fallback (dedupe it (collect tree))"

definition parse_query :: "(string list \<Rightarrow> string list) \<Rightarrow> expression \<Rightarrow> error + info_map" where
  "parse_query it tree = (case run it tree of Inl e \<Rightarrow> Inl e | Inr s \<Rightarrow> Inr (info s))"

section \<open>What the tree declares\<close>

text \<open>
  The names the tree offers to each step, in traversal order: the aliases of the CTE
  nodes, the qualifier of every table node (its alias, or else its name), the aliases of
  the subquery nodes that have one, and the column nodes that carry a prefix.
\<close>

definition cte_names :: "expression \<Rightarrow> string list" where
  "cte_names tree = map alias' (find_all is_CTE tree)"

definition table_qualifiers :: "expression \<Rightarrow> string list" where
  "table_qualifiers tree = map table_qualifier (find_all is_Table tree)"

definition subquery_aliases :: "expression \<Rightarrow> string list" where
  "subquery_aliases tree = filter truthy (map alias' (find_all is_Subquery tree))"

definition qualified_columns :: "expression \<Rightarrow> node list" where
  "qualified_columns tree = filter (\<lambda>c. truthy (table c)) (find_all is_Column tree)"

definition declared :: "expression \<Rightarrow> string list" where
  "declared tree = cte_names tree @ table_qualifiers tree @ subquery_aliases tree"

text \<open>
  The stores of steps 1 to 3 in the order the code makes them, each with its key and the
  table name it writes; and the names of the columns that carry the prefix \<open>k\<close>, in
  traversal order, duplicates included.
\<close>

definition registrations :: "expression \<Rightarrow> (string \<times> string) list" where
  "registrations tree =
     map (\<lambda>c. (alias' c, ''CTE'')) (find_all is_CTE tree) @
     map (\<lambda>t. (table_qualifier t, name t)) (find_all is_Table tree) @
     map (\<lambda>q. (alias' q, ''Subquery'')) (filter (\<lambda>q. truthy (alias' q)) (find_all is_Subquery tree))"

definition attributed :: "expression \<Rightarrow> string \<Rightarrow> string list" where
  "attributed tree k = map name (filter (\<lambda>c. table c = k) (qualified_columns tree))"

text \<open>A list without its repetitions, every element at the place of its first occurrence.\<close>

definition first_occurrences :: "'a list \<Rightarrow> 'a list" where
  "first_occurrences xs = rev (remdups (rev xs))"

text \<open>
  The remaining notions serve the proofs: the three registration loops as one fold, the
  loop of step 5 as a map, the sequence of all keys in the order they are stored, and the
  table name that the last store of a key leaves.
\<close>

definition register :: "(string \<times> string) list \<Rightarrow> info_map \<Rightarrow> info_map" where
  "register regs d = fold (\<lambda>(k, tn) d. setitem d k (new_entry tn)) regs d"

definition registered :: "expression \<Rightarrow> env" where
  "registered tree = \<lparr>parsed = tree, info = register (registrations tree) [], alias_data = None\<rparr>"

definition normalise :: "(string list \<Rightarrow> string list) \<Rightarrow> info_map \<Rightarrow> info_map" where
  "normalise it d = map (\<lambda>(k, e). (k, e\<lparr>columns := sort (it (columns e))\<rparr>)) d"

definition key_sequence :: "expression \<Rightarrow> string list" where
  "key_sequence tree =
     cte_names tree @ table_qualifiers tree @ subquery_aliases tree @
     map table (qualified_columns tree)"

definition source_name :: "expression \<Rightarrow> string \<Rightarrow> string" where
  "source_name tree k = (case map_of (rev (registrations tree)) k of Some tn \<Rightarrow> tn | None \<Rightarrow> k)"

definition all_columns :: "expression \<Rightarrow> string list" where
  "all_columns tree = map alias_or_name (find_all is_Column tree)"

section \<open>Example trees\<close>

text \<open>
  \<open>union_tree\<close> has the shape of
  \<^verbatim>\<open>SELECT column1, column2 FROM table1 UNION SELECT column1, column2 FROM table2\<close>.
  \<open>cte_tree\<close> has a CTE \<open>c\<close> that the main query reads as a table, an aliased
  subquery \<open>s\<close> and a column prefix \<open>u\<close> that nothing declares. In \<open>shadow_tree\<close> a
  CTE, a table reference and a subquery alias all carry the name \<open>x\<close>, as in
  \<^verbatim>\<open>WITH x AS (SELECT 1) SELECT * FROM x, (SELECT 2) AS x\<close>.
\<close>

definition union_tree :: expression where
  "union_tree =
     Expression Other
       [Expression Other
          [Expression (Column ''column1'' [] []) [],
           Expression (Column ''column2'' [] []) [],
           Expression Other [Expression (Table ''table1'' []) []]],
        Expression Other
          [Expression (Column ''column1'' [] []) [],
           Expression (Column ''column2'' [] []) [],
           Expression Other [Expression (Table ''table2'' []) []]]]"

definition union_result :: info_map where
  "union_result =
     [(''table1'', \<lparr>table_name = ''table1'', columns = []\<rparr>),
      (''table2'', \<lparr>table_name = ''table2'',
                    columns = [''column1'', ''column2'', ''column1'', ''column2'']\<rparr>)]"

definition cte_tree :: expression where
  "cte_tree =
     Expression Other
       [Expression (CTE ''c'')
          [Expression Other
             [Expression (Column ''a'' ''t'' []) [],
              Expression Other [Expression (Table ''t'' []) []]]],
        Expression (Column ''b'' ''c'' []) [],
        Expression (Column ''a'' ''c'' []) [],
        Expression (Column ''b'' ''s'' []) [],
        Expression (Column ''z'' ''u'' []) [],
        Expression Other [Expression (Table ''c'' []) []],
        Expression Other
          [Expression (Subquery ''s'')
             [Expression Other
                [Expression (Column ''b'' [] []) [],
                 Expression Other [Expression (Table ''t2'' []) []]]],
           Expression Other
             [Expression (Column ''a'' ''c'' []) [],
              Expression (Column ''b'' ''s'' []) []]]]"

definition cte_result :: info_map where
  "cte_result =
     [(''c'', \<lparr>table_name = ''c'', columns = [''a'', ''b'']\<rparr>),
      (''t'', \<lparr>table_name = ''t'', columns = [''a'']\<rparr>),
      (''t2'', \<lparr>table_name = ''t2'', columns = []\<rparr>),
      (''s'', \<lparr>table_name = ''Subquery'', columns = [''b'']\<rparr>),
      (''u'', \<lparr>table_name = ''u'', columns = [''z'']\<rparr>)]"

definition shadow_tree :: expression where
  "shadow_tree =
     Expression Other
       [Expression (CTE ''x'') [Expression Other []],
        Expression Other
          [Expression (Table ''x'' []) [],
           Expression (Subquery ''x'') [Expression Other []]]]"

section \<open>Auxiliary lemmas\<close>

subsection \<open>Dictionary operations\<close>

lemma keys_setitem:
  "map fst (setitem d k v) = (if k \<in> set (map fst d) then map fst d else map fst d @ [k])"
  by (induction d) force+

lemma getitem_setitem: "getitem (setitem d k v) k' = (if k' = k then Some v else getitem d k')"
  by (induction d) auto

lemma keys_set_columns: "map fst (set_columns d k cs) = map fst d"
  by (induction d) auto

lemma getitem_set_columns:
  "getitem (set_columns d k cs) k' =
     (if k' = k then map_option (\<lambda>e. e\<lparr>columns := cs\<rparr>) (getitem d k) else getitem d k')"
  by (induction d) auto

lemma getitem_None_iff: "getitem d k = None \<longleftrightarrow> k \<notin> set (map fst d)"
  by (induction d) (force split: if_splits)+

lemma getitem_map_of: "getitem d k = map_of d k"
  by (induction d) auto

lemma alist_eqI:
  "distinct (map fst d) \<Longrightarrow> map fst d = map fst d' \<Longrightarrow> (\<And>k. getitem d k = getitem d' k) \<Longrightarrow> d = d'"
proof (induction d arbitrary: d')
  case Nil
  then show ?case by simp
next
  case (Cons p d)
  obtain k v where p: "p = (k, v)" by (cases p)
  from Cons.prems(2) obtain p' d2 where d': "d' = p' # d2" by (cases d') auto
  obtain k' v' where p': "p' = (k', v')" by (cases p')
  from Cons.prems(2) have kk: "k' = k" and keys: "map fst d = map fst d2"
    by (simp_all add: p d' p')
  from Cons.prems(3)[of k] have vv: "v' = v" by (simp add: p d' p' kk)
  have "getitem d j = getitem d2 j" for j
  proof (cases "j = k")
    case True
    with Cons.prems(1) have "j \<notin> set (map fst d)" by (simp add: p)
    then show ?thesis using keys by (metis getitem_None_iff)
  next
    case False
    with Cons.prems(3)[of j] show ?thesis by (simp add: p d' p' kk)
  qed
  with Cons.IH[of d2] Cons.prems(1) keys have "d = d2" by simp
  then show ?case by (simp add: p d' p' kk vv)
qed

subsection \<open>First occurrences\<close>

lemma first_occurrences_snoc:
  "first_occurrences (xs @ [k]) =
     (if k \<in> set xs then first_occurrences xs else first_occurrences xs @ [k])"
  by (simp add: first_occurrences_def)

lemma set_first_occurrences [simp]: "set (first_occurrences xs) = set xs"
  by (simp add: first_occurrences_def)

lemma distinct_first_occurrences [simp]: "distinct (first_occurrences xs)"
  by (simp add: first_occurrences_def)

lemma first_occurrences_Nil [simp]: "first_occurrences [] = []"
  by (simp add: first_occurrences_def)

lemma first_occurrences_distinct: "distinct xs \<Longrightarrow> first_occurrences xs = xs"
  by (simp add: first_occurrences_def distinct_remdups_id)

subsection \<open>Registration (steps 1 to 3)\<close>

lemma register_snoc: "register (regs @ [(k, tn)]) d = setitem (register regs d) k (new_entry tn)"
  by (simp add: register_def)

lemma keys_register:
  "distinct (map fst d) \<Longrightarrow>
   map fst (register regs d) = first_occurrences (map fst d @ map fst regs)"
proof (induction regs rule: rev_induct)
  case Nil
  then show ?case by (simp add: register_def first_occurrences_distinct)
next
  case (snoc r regs)
  obtain k tn where r: "r = (k, tn)" by (cases r)
  have "first_occurrences (map fst d @ map fst (regs @ [r])) =
        first_occurrences ((map fst d @ map fst regs) @ [k])"
    by (simp add: r)
  also have "\<dots> = (if k \<in> set (map fst d @ map fst regs)
                    then first_occurrences (map fst d @ map fst regs)
                    else first_occurrences (map fst d @ map fst regs) @ [k])"
    by (rule first_occurrences_snoc)
  finally show ?case
    using snoc by (simp add: r register_snoc keys_setitem)
qed

lemma getitem_register:
  "getitem (register regs d) k =
     (case map_of (rev regs) k of Some tn \<Rightarrow> Some (new_entry tn) | None \<Rightarrow> getitem d k)"
proof (induction regs rule: rev_induct)
  case Nil
  then show ?case by (simp add: register_def)
next
  case (snoc r regs)
  obtain k' tn where r: "r = (k', tn)" by (cases r)
  show ?case using snoc by (simp add: r register_snoc getitem_setitem)
qed

lemma fold_cte_step:
  "fold cte_step xs s = s\<lparr>info := register (map (\<lambda>c. (alias' c, ''CTE'')) xs) (info s)\<rparr>"
  by (induction xs arbitrary: s) (simp_all add: cte_step_def register_def)

lemma fold_table_step:
  "fold table_step xs s =
     s\<lparr>info := register (map (\<lambda>t. (table_qualifier t, name t)) xs) (info s)\<rparr>"
  by (induction xs arbitrary: s) (simp_all add: table_step_def register_def)

lemma fold_subquery_step:
  "fold subquery_step xs s =
     s\<lparr>info := register (map (\<lambda>q. (alias' q, ''Subquery''))
                              (filter (\<lambda>q. truthy (alias' q)) xs)) (info s)\<rparr>"
  by (induction xs arbitrary: s) (simp_all add: subquery_step_def register_def)

lemma register_append: "register (xs @ ys) d = register ys (register xs d)"
  by (simp add: register_def)

lemma collect_sources_registered: "collect_sources tree = registered tree"
  by (simp add: collect_sources_def Let_def fold_cte_step fold_table_step fold_subquery_step
      registered_def registrations_def register_append)

lemma collect_registered:
  "collect tree = fold column_step (find_all is_Column tree) (registered tree)"
  by (simp add: collect_def collect_sources_registered registered_def)

subsection \<open>Column attribution (step 4)\<close>

lemma parsed_column_step [simp]: "parsed (column_step c s) = parsed s"
  by (simp add: column_step_def Let_def)

lemma alias_data_column_step [simp]: "alias_data (column_step c s) = alias_data s"
  by (simp add: column_step_def Let_def)

lemma keys_column_step:
  "map fst (info (column_step c s)) =
     (if truthy (table c) \<and> table c \<notin> set (map fst (info s))
      then map fst (info s) @ [table c] else map fst (info s))"
  by (simp add: column_step_def Let_def contains_def keys_set_columns keys_setitem)

lemma getitem_column_step:
  "getitem (info (column_step c s)) k =
     (if truthy (table c) \<and> table c = k
      then Some (case getitem (info s) k of
                   None \<Rightarrow> \<lparr>table_name = k, columns = [name c]\<rparr>
                 | Some e \<Rightarrow> e\<lparr>columns := columns e @ [name c]\<rparr>)
      else getitem (info s) k)"
proof (cases "truthy (table c)")
  case False
  then show ?thesis by (simp add: column_step_def)
next
  case True
  show ?thesis
  proof (cases "getitem (info s) (table c)")
    case None
    then have "\<not> contains (info s) (table c)"
      by (simp add: contains_def getitem_None_iff)
    with None True show ?thesis
      by (auto simp: column_step_def Let_def getitem_set_columns getitem_setitem
          get_columns_def new_entry_def)
  next
    case (Some e)
    then have "contains (info s) (table c)"
      using getitem_None_iff[of "info s" "table c"] by (simp add: contains_def)
    with Some True show ?thesis
      by (auto simp: column_step_def Let_def getitem_set_columns get_columns_def)
  qed
qed

lemma parsed_fold_column [simp]: "parsed (fold column_step cs s) = parsed s"
  by (induction cs arbitrary: s) simp_all

lemma alias_data_fold_column [simp]: "alias_data (fold column_step cs s) = alias_data s"
  by (induction cs arbitrary: s) simp_all

lemma keys_fold_column:
  "distinct (map fst (info s)) \<Longrightarrow>
   map fst (info (fold column_step cs s)) =
     first_occurrences (map fst (info s) @ map table (filter (\<lambda>c. truthy (table c)) cs))"
proof (induction cs rule: rev_induct)
  case Nil
  then show ?case by (simp add: first_occurrences_distinct)
next
  case (snoc c cs)
  let ?ks = "map fst (info s) @ map table (filter (\<lambda>c. truthy (table c)) cs)"
  have set_eq: "set (map fst (info (fold column_step cs s))) = set ?ks"
    using snoc by simp
  show ?case
  proof (cases "truthy (table c)")
    case True
    have "first_occurrences (map fst (info s) @
            map table (filter (\<lambda>c. truthy (table c)) (cs @ [c]))) =
          first_occurrences (?ks @ [table c])"
      using True by simp
    also have "\<dots> = (if table c \<in> set ?ks then first_occurrences ?ks
                      else first_occurrences ?ks @ [table c])"
      by (rule first_occurrences_snoc)
    finally show ?thesis
      using True snoc set_eq by (simp add: keys_column_step)
  next
    case False
    then show ?thesis using snoc by (simp add: keys_column_step)
  qed
qed

lemma getitem_fold_column:
  "getitem (info (fold column_step cs s)) k =
     (let mine = map name (filter (\<lambda>c. table c = k) (filter (\<lambda>c. truthy (table c)) cs))
      in case getitem (info s) k of
           Some e \<Rightarrow> Some (e\<lparr>columns := columns e @ mine\<rparr>)
         | None \<Rightarrow> if mine = [] then None else Some \<lparr>table_name = k, columns = mine\<rparr>)"
proof (induction cs rule: rev_induct)
  case Nil
  then show ?case by (simp split: option.splits)
next
  case (snoc c cs)
  show ?case
    using snoc
    by (simp add: getitem_column_step Let_def split: option.splits)
qed

subsection \<open>Normalisation (the loop of step 5)\<close>

lemma parsed_fold_dedupe [simp]: "parsed (fold (dedupe_step it) ks s) = parsed s"
  by (induction ks arbitrary: s) (simp_all add: dedupe_step_def)

lemma alias_data_fold_dedupe:
  "alias_data (fold (dedupe_step it) ks s) = (if ks = [] then alias_data s else Some (last ks))"
  by (induction ks rule: rev_induct) (simp_all add: dedupe_step_def)

lemma keys_fold_dedupe [simp]: "map fst (info (fold (dedupe_step it) ks s)) = map fst (info s)"
  by (induction ks arbitrary: s) (simp_all add: dedupe_step_def keys_set_columns)

lemma getitem_fold_dedupe:
  "distinct ks \<Longrightarrow>
   getitem (info (fold (dedupe_step it) ks s)) k =
     (if k \<in> set ks then map_option (\<lambda>e. e\<lparr>columns := sort (it (columns e))\<rparr>) (getitem (info s) k)
      else getitem (info s) k)"
proof (induction ks rule: rev_induct)
  case Nil
  then show ?case by simp
next
  case (snoc j ks)
  then show ?case
    by (cases "getitem (info s) j")
       (auto simp: dedupe_step_def getitem_set_columns get_columns_def)
qed

lemma keys_normalise [simp]: "map fst (normalise it d) = map fst d"
  by (induction d) (auto simp: normalise_def)

lemma getitem_normalise:
  "getitem (normalise it d) k = map_option (\<lambda>e. e\<lparr>columns := sort (it (columns e))\<rparr>) (getitem d k)"
  by (induction d) (auto simp: normalise_def)

lemma info_dedupe:
  assumes "distinct (map fst (info s))"
  shows "info (dedupe it s) = normalise it (info s)"
proof (rule alist_eqI)
  show "distinct (map fst (info (dedupe it s)))"
    using assms by (simp add: dedupe_def)
  show "map fst (info (dedupe it s)) = map fst (normalise it (info s))"
    by (simp add: dedupe_def)
  show "getitem (info (dedupe it s)) k = getitem (normalise it (info s)) k" for k
    using assms getitem_None_iff[of "info s" k]
    by (auto simp: dedupe_def getitem_fold_dedupe getitem_normalise)
qed

lemma alias_data_dedupe:
  "alias_data (dedupe it s) =
     (if info s = [] then alias_data s else Some (fst (last (info s))))"
  by (simp add: dedupe_def alias_data_fold_dedupe last_map)

lemma parsed_dedupe [simp]: "parsed (dedupe it s) = parsed s"
  by (simp add: dedupe_def)

subsection \<open>The dictionary after steps 1 to 4\<close>

lemma keys_registrations:
  "map fst (registrations tree) = cte_names tree @ table_qualifiers tree @ subquery_aliases tree"
  by (simp add: registrations_def cte_names_def table_qualifiers_def subquery_aliases_def
      comp_def filter_map)

lemma first_occurrences_absorb:
  "first_occurrences (first_occurrences xs @ ys) = first_occurrences (xs @ ys)"
proof (induction ys rule: rev_induct)
  case Nil
  then show ?case by (simp add: first_occurrences_distinct)
next
  case (snoc y ys)
  have "first_occurrences ((first_occurrences xs @ ys) @ [y]) =
        (if y \<in> set (first_occurrences xs @ ys) then first_occurrences (first_occurrences xs @ ys)
         else first_occurrences (first_occurrences xs @ ys) @ [y])"
    by (rule first_occurrences_snoc)
  moreover have "first_occurrences ((xs @ ys) @ [y]) =
        (if y \<in> set (xs @ ys) then first_occurrences (xs @ ys)
         else first_occurrences (xs @ ys) @ [y])"
    by (rule first_occurrences_snoc)
  ultimately show ?case using snoc by simp
qed

lemma keys_registered:
  "map fst (info (registered tree)) = first_occurrences (map fst (registrations tree))"
  using keys_register[of "[]" "registrations tree"] by (simp add: registered_def)

lemma keys_collect: "map fst (info (collect tree)) = first_occurrences (key_sequence tree)"
proof -
  have d: "distinct (map fst (info (registered tree)))"
    by (simp add: keys_registered)
  have "map fst (info (collect tree)) =
        first_occurrences (map fst (info (registered tree)) @ map table (qualified_columns tree))"
    using keys_fold_column[OF d] by (simp add: collect_registered qualified_columns_def)
  also have "\<dots> = first_occurrences (map fst (registrations tree) @ map table (qualified_columns tree))"
    by (simp add: keys_registered first_occurrences_absorb)
  finally show ?thesis by (simp add: key_sequence_def keys_registrations)
qed

lemma getitem_registered:
  "getitem (info (registered tree)) k =
     (if k \<in> set (map fst (registrations tree))
      then Some (new_entry (source_name tree k)) else None)"
proof (cases "map_of (rev (registrations tree)) k")
  case None
  then have "k \<notin> set (map fst (registrations tree))"
    by (simp add: map_of_eq_None_iff)
  with None show ?thesis
    by (simp add: registered_def getitem_register)
next
  case (Some tn)
  then have "k \<in> set (map fst (registrations tree))"
    using map_of_eq_None_iff[of "rev (registrations tree)" k] by simp
  with Some show ?thesis
    by (simp add: registered_def getitem_register source_name_def)
qed

lemma source_name_unregistered:
  "k \<notin> set (map fst (registrations tree)) \<Longrightarrow> source_name tree k = k"
  by (simp add: source_name_def map_of_eq_None_iff[THEN iffD2])

lemma attributed_Nil_iff:
  "attributed tree k = [] \<longleftrightarrow> k \<notin> set (map table (qualified_columns tree))"
  by (auto simp: attributed_def filter_empty_conv)

lemma getitem_collect:
  "getitem (info (collect tree)) k =
     (if k \<in> set (key_sequence tree)
      then Some \<lparr>table_name = source_name tree k, columns = attributed tree k\<rparr>
      else None)"
proof -
  have ks: "set (key_sequence tree) =
            set (map fst (registrations tree)) \<union> set (map table (qualified_columns tree))"
    by (simp add: key_sequence_def keys_registrations Un_assoc)
  have mine: "map name (filter (\<lambda>c. table c = k)
                (filter (\<lambda>c. truthy (table c)) (find_all is_Column tree))) = attributed tree k"
    by (simp add: attributed_def qualified_columns_def)
  have g: "getitem (info (collect tree)) k =
     (case getitem (info (registered tree)) k of
        Some e \<Rightarrow> Some (e\<lparr>columns := columns e @ attributed tree k\<rparr>)
      | None \<Rightarrow> if attributed tree k = [] then None
                else Some \<lparr>table_name = k, columns = attributed tree k\<rparr>)"
    unfolding collect_registered getitem_fold_column Let_def mine ..
  show ?thesis
  proof (cases "k \<in> set (map fst (registrations tree))")
    case True
    then have "k \<in> set (key_sequence tree)" unfolding ks by blast
    with True show ?thesis
      by (simp add: g getitem_registered new_entry_def)
  next
    case False
    then have "k \<in> set (key_sequence tree) \<longleftrightarrow> attributed tree k \<noteq> []"
      unfolding ks attributed_Nil_iff by blast
    with False show ?thesis
      by (simp add: g getitem_registered source_name_unregistered)
  qed
qed

subsection \<open>The fallback\<close>

lemma set_columns_last:
  "distinct (map fst d) \<Longrightarrow> d \<noteq> [] \<Longrightarrow>
   set_columns d (fst (last d)) cs = butlast d @ [(fst (last d), (snd (last d))\<lparr>columns := cs\<rparr>)]"
proof (induction d)
  case Nil
  then show ?case by simp
next
  case (Cons p d)
  obtain k v where p: "p = (k, v)" by (cases p)
  show ?case
  proof (cases "d = []")
    case True
    then show ?thesis by (simp add: p)
  next
    case False
    then have "last d \<in> set d" by simp
    then have "fst (last d) \<in> set (map fst d)" by simp
    with Cons.prems have "k \<noteq> fst (last d)" by (auto simp: p)
    with Cons False show ?thesis by (simp add: p)
  qed
qed

lemma getitem_last:
  "distinct (map fst d) \<Longrightarrow> d \<noteq> [] \<Longrightarrow> getitem d (fst (last d)) = Some (snd (last d))"
proof (induction d)
  case Nil
  then show ?case by simp
next
  case (Cons p d)
  obtain k v where p: "p = (k, v)" by (cases p)
  show ?case
  proof (cases "d = []")
    case True
    then show ?thesis by (simp add: p)
  next
    case False
    then have "last d \<in> set d" by simp
    then have "fst (last d) \<in> set (map fst d)" by simp
    with Cons.prems have "k \<noteq> fst (last d)" by (auto simp: p)
    with Cons False show ?thesis by (simp add: p)
  qed
qed

lemma sort_Nil_iff: "sort xs = [] \<longleftrightarrow> xs = []"
  by (metis length_sort length_0_conv)

lemma parsed_collect [simp]: "parsed (collect tree) = tree"
  by (simp add: collect_registered registered_def)

lemma run_empty:
  "key_sequence tree = [] \<Longrightarrow> run it tree = Inl UnboundLocalError"
proof -
  assume "key_sequence tree = []"
  then have "map fst (info (collect tree)) = []" by (simp add: keys_collect)
  then have e: "info (collect tree) = []" by simp
  have "alias_data (collect tree) = None"
    by (simp add: collect_registered registered_def)
  with e show ?thesis
    by (simp add: run_def fallback_def alias_data_dedupe)
qed

lemma run_nonempty:
  assumes "key_sequence tree \<noteq> []"
  shows "\<exists>s. run it tree = Inr s \<and> parsed s = tree \<and>
             map fst (info s) = first_occurrences (key_sequence tree) \<and>
             (\<forall>k. getitem (info s) k =
                (if k \<in> set (key_sequence tree)
                 then Some \<lparr>table_name = source_name tree k,
                            columns = (if k = last (first_occurrences (key_sequence tree)) \<and>
                                          sort (it (attributed tree k)) = []
                                       then all_columns tree
                                       else sort (it (attributed tree k)))\<rparr>
                 else None))"
proof -
  let ?c = "collect tree"
  let ?d = "dedupe it ?c"
  let ?ks = "first_occurrences (key_sequence tree)"
  have ks: "map fst (info ?c) = ?ks" by (rule keys_collect)
  then have dist: "distinct (map fst (info ?c))" by simp
  have ne: "info ?c \<noteq> []"
  proof
    assume "info ?c = []"
    with ks have "set ?ks = {}" by (metis list.simps(8) set_empty)
    with assms show False by simp
  qed
  have inf: "info ?d = normalise it (info ?c)" by (rule info_dedupe[OF dist])
  have keys_d: "map fst (info ?d) = ?ks" by (simp add: inf ks)
  have ad: "alias_data ?d = Some (last ?ks)"
    using ne ks by (simp add: alias_data_dedupe last_map[symmetric])
  have par: "parsed ?d = tree" by simp
  have gi: "getitem (info ?d) k =
      (if k \<in> set (key_sequence tree)
       then Some \<lparr>table_name = source_name tree k, columns = sort (it (attributed tree k))\<rparr>
       else None)" for k
    by (simp add: inf getitem_normalise getitem_collect)
  have last_in: "last ?ks \<in> set (key_sequence tree)"
    using assms by (metis last_in_set set_first_occurrences set_empty)
  have gc: "get_columns (info ?d) (last ?ks) = sort (it (attributed tree (last ?ks)))"
    using gi[of "last ?ks"] last_in by (simp add: get_columns_def)
  have fb: "run it tree =
     (if length (sort (it (attributed tree (last ?ks)))) = 0
      then Inr (?d\<lparr>info := set_columns (info ?d) (last ?ks) (all_columns tree)\<rparr>)
      else Inr ?d)"
    by (simp add: run_def fallback_def ad gc all_columns_def par)
  show ?thesis
  proof (cases "length (sort (it (attributed tree (last ?ks)))) = 0")
    case True
    then have r: "run it tree = Inr (?d\<lparr>info := set_columns (info ?d) (last ?ks) (all_columns tree)\<rparr>)"
      unfolding fb by simp
    have e: "sort (it (attributed tree (last ?ks))) = []"
      using True by (simp add: sort_Nil_iff)
    show ?thesis
      by (rule exI[of _ "?d\<lparr>info := set_columns (info ?d) (last ?ks) (all_columns tree)\<rparr>"])
         (simp add: r keys_set_columns getitem_set_columns keys_d gi e)
  next
    case False
    then have r: "run it tree = Inr ?d"
      unfolding fb by simp
    have e: "sort (it (attributed tree (last ?ks))) \<noteq> []"
      using False by (simp add: sort_Nil_iff)
    have "sort (it (attributed tree k)) = [] \<Longrightarrow> k \<noteq> last ?ks" for k
      using e by auto
    then show ?thesis
      by (intro exI[of _ "?d"]) (auto simp: r keys_d gi)
  qed
qed

subsection \<open>The result as a whole\<close>

lemma sort_set_iteration:
  assumes "set_iteration it"
  shows "sort (it xs) = sorted_list_of_set (set xs)"
proof -
  from assms have d: "distinct (it xs)" and s: "set (it xs) = set xs"
    by (simp_all add: set_iteration_def)
  have "sort (it xs) = sort (remdups (it xs))"
    using d by (simp add: distinct_remdups_id)
  also have "\<dots> = sorted_list_of_set (set (it xs))"
    by (simp add: sorted_list_of_set_sort_remdups)
  finally show ?thesis by (simp add: s)
qed

lemma parse_query_Inr_keys:
  assumes "parse_query it tree = Inr r"
  shows "key_sequence tree \<noteq> []"
proof
  assume "key_sequence tree = []"
  then have "run it tree = Inl UnboundLocalError" by (rule run_empty)
  with assms show False by (simp add: parse_query_def)
qed

lemma result_entries:
  assumes "parse_query it tree = Inr r"
  shows "map fst r = first_occurrences (key_sequence tree)"
    and "getitem r k =
      (if k \<in> set (key_sequence tree)
       then Some \<lparr>table_name = source_name tree k,
                  columns = (if k = last (first_occurrences (key_sequence tree)) \<and>
                                sort (it (attributed tree k)) = []
                             then all_columns tree
                             else sort (it (attributed tree k)))\<rparr>
       else None)"
proof -
  from run_nonempty[OF parse_query_Inr_keys[OF assms], of it]
  obtain s where s: "run it tree = Inr s"
    and ks: "map fst (info s) = first_occurrences (key_sequence tree)"
    and gi: "\<forall>k. getitem (info s) k =
      (if k \<in> set (key_sequence tree)
       then Some \<lparr>table_name = source_name tree k,
                  columns = (if k = last (first_occurrences (key_sequence tree)) \<and>
                                sort (it (attributed tree k)) = []
                             then all_columns tree
                             else sort (it (attributed tree k)))\<rparr>
       else None)"
    by blast
  from s assms have r: "r = info s" by (simp add: parse_query_def)
  show "map fst r = first_occurrences (key_sequence tree)" using ks r by simp
  show "getitem r k =
      (if k \<in> set (key_sequence tree)
       then Some \<lparr>table_name = source_name tree k,
                  columns = (if k = last (first_occurrences (key_sequence tree)) \<and>
                                sort (it (attributed tree k)) = []
                             then all_columns tree
                             else sort (it (attributed tree k)))\<rparr>
       else None)"
    using gi r by simp
qed

lemma getitem_member:
  "distinct (map fst d) \<Longrightarrow> (k, e) \<in> set d \<Longrightarrow> getitem d k = Some e"
  by (simp add: getitem_map_of)

lemma before_fallback:
  assumes "key_sequence tree \<noteq> []"
  shows "info (dedupe it (collect tree)) \<noteq> []"
    and "distinct (map fst (info (dedupe it (collect tree))))"
    and "alias_data (dedupe it (collect tree)) = Some (fst (last (info (dedupe it (collect tree)))))"
    and "get_columns (info (dedupe it (collect tree))) (fst (last (info (dedupe it (collect tree)))))
           = columns (snd (last (info (dedupe it (collect tree)))))"
proof -
  let ?c = "info (collect tree)"
  let ?m = "info (dedupe it (collect tree))"
  have ks: "map fst ?c = first_occurrences (key_sequence tree)" by (rule keys_collect)
  then have dist: "distinct (map fst ?c)" by simp
  have ne: "?c \<noteq> []"
  proof
    assume "?c = []"
    with ks have "set (first_occurrences (key_sequence tree)) = {}"
      by (metis list.simps(8) set_empty)
    with assms show False by simp
  qed
  have m: "?m = normalise it ?c" by (rule info_dedupe[OF dist])
  show m_ne: "?m \<noteq> []" using ne by (simp add: m normalise_def)
  show m_dist: "distinct (map fst ?m)" using dist by (simp add: m)
  have "fst (last ?m) = last (map fst ?m)" using m_ne by (simp add: last_map)
  also have "\<dots> = last (map fst ?c)" by (simp add: m)
  also have "\<dots> = fst (last ?c)" using ne by (simp add: last_map)
  finally show "alias_data (dedupe it (collect tree)) = Some (fst (last ?m))"
    using ne by (simp add: alias_data_dedupe)
  show "get_columns ?m (fst (last ?m)) = columns (snd (last ?m))"
    using getitem_last[OF m_dist m_ne] by (simp add: get_columns_def)
qed

lemma fallback_fires_iff:
  assumes "key_sequence tree \<noteq> []"
  shows "fallback_fires (dedupe it (collect tree)) \<longleftrightarrow>
         columns (snd (last (info (dedupe it (collect tree))))) = []"
  using before_fallback(3,4)[OF assms, of it] by (simp add: fallback_fires_def)

lemma run_cases:
  assumes "key_sequence tree \<noteq> []"
  shows "run it tree =
     Inr (if fallback_fires (dedupe it (collect tree))
          then (dedupe it (collect tree))
                 \<lparr>info := butlast (info (dedupe it (collect tree))) @
                     [(fst (last (info (dedupe it (collect tree)))),
                       (snd (last (info (dedupe it (collect tree)))))
                         \<lparr>columns := map alias_or_name (find_all is_Column tree)\<rparr>)]\<rparr>
          else dedupe it (collect tree))"
proof -
  let ?d = "dedupe it (collect tree)"
  let ?m = "info ?d"
  note bf = before_fallback[OF assms, of it]
  have sc: "set_columns ?m (fst (last ?m)) cs =
            butlast ?m @ [(fst (last ?m), (snd (last ?m))\<lparr>columns := cs\<rparr>)]" for cs
    by (rule set_columns_last[OF bf(2) bf(1)])
  show ?thesis
    by (simp add: run_def fallback_def fallback_fires_def bf(3) sc)
qed

lemma key_sequence_declared:
  "set (key_sequence tree) = set (declared tree) \<union> set (map table (qualified_columns tree))"
  by (simp add: key_sequence_def declared_def Un_assoc)

lemma declared_registrations: "declared tree = map fst (registrations tree)"
  by (simp add: declared_def keys_registrations)

lemma member_getitem:
  "getitem d k = Some e \<Longrightarrow> (k, e) \<in> set d"
  by (simp add: getitem_map_of map_of_SomeD)

lemma last_columns_before_fallback:
  assumes ne: "key_sequence tree \<noteq> []"
  shows "columns (snd (last (info (dedupe it (collect tree))))) =
         sort (it (attributed tree (last (first_occurrences (key_sequence tree)))))"
proof -
  let ?ks = "first_occurrences (key_sequence tree)"
  let ?c = "info (collect tree)"
  have kc: "map fst ?c = ?ks" by (rule keys_collect)
  then have dc: "distinct (map fst ?c)" by simp
  have "set (map fst ?c) \<noteq> {}" using ne by (simp only: kc set_first_occurrences) simp
  then have cne: "?c \<noteq> []" by auto
  have m: "info (dedupe it (collect tree)) = normalise it ?c" by (rule info_dedupe[OF dc])
  have mne: "normalise it ?c \<noteq> []" using cne by (simp add: normalise_def)
  have md: "distinct (map fst (normalise it ?c))" using dc by simp
  have "fst (last (normalise it ?c)) = last ?ks"
    using mne kc by (simp add: last_map[symmetric])
  with getitem_last[OF md mne]
  have gl: "getitem (normalise it ?c) (last ?ks) = Some (snd (last (normalise it ?c)))" by simp
  have li: "last ?ks \<in> set (key_sequence tree)"
    using ne by (metis last_in_set set_first_occurrences set_empty)
  have "Some (snd (last (normalise it ?c))) =
        Some \<lparr>table_name = source_name tree (last ?ks),
               columns = sort (it (attributed tree (last ?ks)))\<rparr>"
    unfolding gl[symmetric] using li by (simp add: getitem_normalise getitem_collect)
  then have "snd (last (normalise it ?c)) =
        \<lparr>table_name = source_name tree (last ?ks),
         columns = sort (it (attributed tree (last ?ks)))\<rparr>"
    by (simp only: option.inject)
  then show ?thesis by (simp add: m)
qed

lemma source_name_last_registration:
  assumes "registrations tree = pre @ (k, tn) # post" and "k \<notin> set (map fst post)"
  shows "source_name tree k = tn"
proof -
  have "map_of (rev post) k = None"
    using assms(2) by (simp add: map_of_eq_None_iff)
  then have "map_of (rev (registrations tree)) k = Some tn"
    by (simp add: assms(1) map_add_def)
  then show ?thesis by (simp add: source_name_def)
qed

lemma set_iteration_Nil_iff:
  "set_iteration it \<Longrightarrow> sort (it xs) = [] \<longleftrightarrow> xs = []"
  by (metis set_iteration_def sort_Nil_iff set_empty)

section \<open>The claims\<close>

text \<open>
  C1. The specification promises that extraction succeeds on every tree and that a query
  without any CTE, table, subquery or column node yields the empty map. On such a tree
  (for instance the tree of \<^verbatim>\<open>SELECT 1\<close>) the loop of step 5 never binds
  \<open>alias_data\<close>, and the test after the loop reads the unbound variable: the call
  ends in the error instead of returning the empty dictionary.
\<close>

theorem C1_empty_query_raises:
  "parse_query it (Expression Other [Expression Other []]) = Inl UnboundLocalError"
  by (simp add: parse_query_def run_def fallback_def dedupe_def collect_def
      collect_sources_def find_all_def)

text \<open>
  C2. Whenever \<open>parse_query\<close> returns a dictionary, that dictionary differs from the one
  the loop of step 5 leaves behind in its last entry at most: all entries but the last
  are the deduplicated ones (an empty one stays empty), the last entry keeps its key and
  its table name, and its columns are replaced, exactly when they are empty after
  deduplication, by \<open>alias_or_name\<close> of every column node of the tree in traversal order,
  duplicates kept. The test of line 57 is that emptiness test.
\<close>

theorem C2_fallback_last_entry_only:
  assumes "parse_query it tree = Inr r"
  shows "r \<noteq> [] \<and>
         length r = length (info (dedupe it (collect tree))) \<and>
         butlast r = butlast (info (dedupe it (collect tree))) \<and>
         fst (last r) = fst (last (info (dedupe it (collect tree)))) \<and>
         table_name (snd (last r)) = table_name (snd (last (info (dedupe it (collect tree))))) \<and>
         (fallback_fires (dedupe it (collect tree)) \<longleftrightarrow>
            columns (snd (last (info (dedupe it (collect tree))))) = []) \<and>
         columns (snd (last r)) =
           (if columns (snd (last (info (dedupe it (collect tree))))) = []
            then map alias_or_name (find_all is_Column tree)
            else columns (snd (last (info (dedupe it (collect tree))))))"
proof -
  let ?m = "info (dedupe it (collect tree))"
  have ks: "key_sequence tree \<noteq> []" by (rule parse_query_Inr_keys[OF assms])
  have ne: "?m \<noteq> []" by (rule before_fallback(1)[OF ks])
  have ff: "fallback_fires (dedupe it (collect tree)) \<longleftrightarrow> columns (snd (last ?m)) = []"
    by (rule fallback_fires_iff[OF ks])
  have r: "r = (if columns (snd (last ?m)) = []
                then butlast ?m @ [(fst (last ?m),
                       (snd (last ?m))\<lparr>columns := map alias_or_name (find_all is_Column tree)\<rparr>)]
                else ?m)"
    using assms by (auto simp: parse_query_def run_cases[OF ks] ff split: if_splits)
  show ?thesis
  proof (cases "columns (snd (last ?m)) = []")
    case True
    with r ne ff show ?thesis by simp
  next
    case False
    with r ne ff show ?thesis by simp
  qed
qed

text \<open>
  The union query of the specification: \<open>table1\<close> keeps its empty columns, \<open>table2\<close>, the
  last entry, receives the four column references of the tree.
\<close>

theorem C2_fallback_last_entry_only_witness:
  "parse_query remdups union_tree = Inr union_result \<and>
   butlast union_result = butlast (info (dedupe remdups (collect union_tree))) \<and>
   columns (snd (last (info (dedupe remdups (collect union_tree))))) = [] \<and>
   columns (snd (hd union_result)) = [] \<and>
   columns (snd (last union_result)) = map alias_or_name (find_all is_Column union_tree) \<and>
   columns (snd (last union_result)) = [''column1'', ''column2'', ''column1'', ''column2'']"
proof -
  have h: "parse_query remdups union_tree = Inr union_result" by code_simp
  have e: "columns (snd (last (info (dedupe remdups (collect union_tree))))) = []" by code_simp
  have c: "columns (snd (hd union_result)) = [] \<and>
           columns (snd (last union_result)) = [''column1'', ''column2'', ''column1'', ''column2'']"
    by (simp add: union_result_def)
  from C2_fallback_last_entry_only[OF h] h e c show ?thesis by simp
qed

text \<open>
  C3. A name that the tree declares (the alias of a CTE node, the alias or else the name
  of a table node, the non-empty alias of a subquery node) makes \<open>parse_query\<close> return a
  dictionary that has the name among its keys, whether or not a column refers to it.
  A prefix \<open>q\<close> of some column that is declared nowhere also gets an entry, and the
  table name of that entry is \<open>q\<close> itself.
\<close>

theorem C3_declared_names_are_keys:
  "(k \<in> set (cte_names tree) \<union> set (table_qualifiers tree) \<union> set (subquery_aliases tree) \<longrightarrow>
      (\<exists>r. parse_query it tree = Inr r \<and> k \<in> set (map fst r))) \<and>
   (q \<in> set (map table (qualified_columns tree)) \<and>
    q \<notin> set (cte_names tree) \<union> set (table_qualifiers tree) \<union> set (subquery_aliases tree) \<longrightarrow>
      (\<exists>r e. parse_query it tree = Inr r \<and> (q, e) \<in> set r \<and> table_name e = q))"
proof (intro conjI impI)
  assume k: "k \<in> set (cte_names tree) \<union> set (table_qualifiers tree) \<union> set (subquery_aliases tree)"
  then have kk: "k \<in> set (key_sequence tree)"
    by (auto simp: key_sequence_declared declared_def)
  then have "key_sequence tree \<noteq> []" by auto
  from run_nonempty[OF this, of it] obtain s where s: "run it tree = Inr s"
    and ks: "map fst (info s) = first_occurrences (key_sequence tree)" by blast
  from s have "parse_query it tree = Inr (info s)" by (simp add: parse_query_def)
  moreover have "k \<in> set (map fst (info s))" using kk by (simp only: ks set_first_occurrences)
  ultimately show "\<exists>r. parse_query it tree = Inr r \<and> k \<in> set (map fst r)" by blast
next
  assume q: "q \<in> set (map table (qualified_columns tree)) \<and>
    q \<notin> set (cte_names tree) \<union> set (table_qualifiers tree) \<union> set (subquery_aliases tree)"
  then have qk: "q \<in> set (key_sequence tree)" by (simp add: key_sequence_declared)
  from q have nd: "q \<notin> set (map fst (registrations tree))"
    by (simp add: keys_registrations)
  from qk have "key_sequence tree \<noteq> []" by auto
  from run_nonempty[OF this, of it] obtain s where s: "run it tree = Inr s" by blast
  then have p: "parse_query it tree = Inr (info s)" by (simp add: parse_query_def)
  from result_entries(2)[OF p, of q] qk obtain e
    where e: "getitem (info s) q = Some e" and tn: "table_name e = source_name tree q"
    by simp
  from e have "(q, e) \<in> set (info s)" by (rule member_getitem)
  moreover have "table_name e = q" using tn nd by (simp add: source_name_unregistered)
  ultimately show "\<exists>r e. parse_query it tree = Inr r \<and> (q, e) \<in> set r \<and> table_name e = q"
    using p by blast
qed

text \<open>
  In \<open>cte_tree\<close> the table \<open>t2\<close> is declared and no column names it; the prefix \<open>u\<close> is
  declared nowhere.
\<close>

theorem C3_declared_names_are_keys_witness:
  "''t2'' \<in> set (cte_names cte_tree) \<union> set (table_qualifiers cte_tree) \<union>
            set (subquery_aliases cte_tree) \<and>
   attributed cte_tree ''t2'' = [] \<and>
   (\<exists>r. parse_query remdups cte_tree = Inr r \<and> ''t2'' \<in> set (map fst r)) \<and>
   ''u'' \<in> set (map table (qualified_columns cte_tree)) \<and>
   ''u'' \<notin> set (cte_names cte_tree) \<union> set (table_qualifiers cte_tree) \<union>
            set (subquery_aliases cte_tree) \<and>
   (\<exists>r e. parse_query remdups cte_tree = Inr r \<and> (''u'', e) \<in> set r \<and> table_name e = ''u'')"
proof -
  have h1: "''t2'' \<in> set (cte_names cte_tree) \<union> set (table_qualifiers cte_tree) \<union>
            set (subquery_aliases cte_tree)"
    by code_simp
  have h2: "''u'' \<in> set (map table (qualified_columns cte_tree))" by code_simp
  have h3: "''u'' \<notin> set (cte_names cte_tree) \<union> set (table_qualifiers cte_tree) \<union>
            set (subquery_aliases cte_tree)"
    by code_simp
  have h4: "attributed cte_tree ''t2'' = []" by code_simp
  from C3_declared_names_are_keys[of "''t2''" cte_tree remdups "''u''"] h1 h2 h3 h4
  show ?thesis by blast
qed

text \<open>
  C4. In the returned dictionary every entry other than the one the fallback has
  overwritten (the last entry, when the test of line 57 succeeds) has columns without a
  duplicate and in ascending lexicographic order.
\<close>

theorem C4_columns_sorted_distinct:
  assumes "set_iteration it" and "parse_query it tree = Inr r" and "(k, e) \<in> set r"
    and "\<not> (fallback_fires (dedupe it (collect tree)) \<and> k = fst (last r))"
  shows "distinct (columns e) \<and> sorted (columns e)"
proof -
  let ?ks = "first_occurrences (key_sequence tree)"
  have ne: "key_sequence tree \<noteq> []" by (rule parse_query_Inr_keys[OF assms(2)])
  have keys: "map fst r = ?ks" by (rule result_entries(1)[OF assms(2)])
  then have dist: "distinct (map fst r)" by simp
  have g: "getitem r k = Some e" by (rule getitem_member[OF dist assms(3)])
  have r_ne: "r \<noteq> []" using assms(3) by auto
  have lastk: "fst (last r) = last ?ks" using r_ne keys by (simp add: last_map[symmetric])
  have "\<not> (k = last ?ks \<and> sort (it (attributed tree k)) = [])"
    using assms(4) fallback_fires_iff[OF ne, of it] last_columns_before_fallback[OF ne, of it]
      lastk by auto
  with g result_entries(2)[OF assms(2), of k]
  have "columns e = sort (it (attributed tree k))"
    by (auto split: if_splits)
  then have "columns e = sorted_list_of_set (set (attributed tree k))"
    by (simp add: sort_set_iteration[OF assms(1)])
  then show ?thesis by simp
qed

text \<open>
  The columns \<open>c.b\<close>, \<open>c.a\<close>, \<open>c.a\<close> of \<open>cte_tree\<close> come out as \<open>a\<close>, \<open>b\<close>.
\<close>

theorem C4_columns_sorted_distinct_witness:
  "set_iteration remdups \<and>
   parse_query remdups cte_tree = Inr cte_result \<and>
   attributed cte_tree ''c'' = [''b'', ''a'', ''a''] \<and>
   (''c'', \<lparr>table_name = ''c'', columns = [''a'', ''b'']\<rparr>) \<in> set cte_result \<and>
   \<not> (fallback_fires (dedupe remdups (collect cte_tree)) \<and> ''c'' = fst (last cte_result)) \<and>
   distinct (columns \<lparr>table_name = ''c'', columns = [''a'', ''b'']\<rparr>) \<and>
   sorted (columns \<lparr>table_name = ''c'', columns = [''a'', ''b'']\<rparr>)"
proof -
  have h1: "set_iteration remdups" by (simp add: set_iteration_def)
  have h2: "parse_query remdups cte_tree = Inr cte_result" by code_simp
  have h3: "(''c'', \<lparr>table_name = ''c'', columns = [''a'', ''b'']\<rparr>) \<in> set cte_result"
    by (simp add: cte_result_def)
  have h4: "\<not> (fallback_fires (dedupe remdups (collect cte_tree)) \<and>
               ''c'' = fst (last cte_result))"
    by (simp add: cte_result_def)
  have h5: "attributed cte_tree ''c'' = [''b'', ''a'', ''a'']" by code_simp
  from C4_columns_sorted_distinct[OF h1 h2 h3 h4] h1 h2 h3 h4 h5 show ?thesis by blast
qed

text \<open>
  C5. \<open>registrations\<close> lists the stores of steps 1 to 3 in the order the code makes them.
  For a key \<open>k\<close>, the last of its registrations decides the entry: after step 3 the entry
  has that registration's table name and no columns, and in the returned dictionary it
  still has that table name while its columns hold the name of every column of the tree
  that is qualified with \<open>k\<close> (sorted and without duplicates when there is one).
\<close>

theorem C5_last_registration_wins:
  assumes "set_iteration it" and "parse_query it tree = Inr r"
    and "registrations tree = pre @ (k, tn) # post" and "k \<notin> set (map fst post)"
  shows "getitem (info (collect_sources tree)) k = Some \<lparr>table_name = tn, columns = []\<rparr> \<and>
         (\<exists>e. getitem r k = Some e \<and> table_name e = tn \<and>
              set (attributed tree k) \<subseteq> set (columns e) \<and>
              (attributed tree k \<noteq> [] \<longrightarrow>
                 columns e = sorted_list_of_set (set (attributed tree k))))"
proof -
  have sn: "source_name tree k = tn"
    by (rule source_name_last_registration[OF assms(3,4)])
  have reg: "k \<in> set (map fst (registrations tree))" by (simp add: assms(3))
  then have kk: "k \<in> set (key_sequence tree)"
    by (simp add: key_sequence_declared declared_registrations)
  have 1: "getitem (info (collect_sources tree)) k = Some \<lparr>table_name = tn, columns = []\<rparr>"
    using reg by (simp add: collect_sources_registered getitem_registered sn new_entry_def)
  let ?cols = "if k = last (first_occurrences (key_sequence tree)) \<and>
                  sort (it (attributed tree k)) = []
               then all_columns tree else sort (it (attributed tree k))"
  have g: "getitem r k = Some \<lparr>table_name = tn, columns = ?cols\<rparr>"
    using result_entries(2)[OF assms(2), of k] kk by (simp add: sn)
  have sub: "set (attributed tree k) \<subseteq> set ?cols"
    by (cases "attributed tree k = []")
       (simp_all add: set_iteration_Nil_iff[OF assms(1)] sort_set_iteration[OF assms(1)])
  have eq: "attributed tree k \<noteq> [] \<longrightarrow> ?cols = sorted_list_of_set (set (attributed tree k))"
    by (simp add: set_iteration_Nil_iff[OF assms(1)] sort_set_iteration[OF assms(1)])
  show ?thesis using 1 g sub eq by simp
qed

text \<open>
  In \<open>cte_tree\<close> the key \<open>c\<close> is registered twice, by the CTE and then by the table node.
\<close>

theorem C5_last_registration_wins_witness:
  "set_iteration remdups \<and>
   parse_query remdups cte_tree = Inr cte_result \<and>
   registrations cte_tree =
     [(''c'', ''CTE'')] @ (''c'', ''c'') #
     [(''t'', ''t''), (''t2'', ''t2''), (''s'', ''Subquery'')] \<and>
   ''c'' \<notin> set (map fst [(''t'', ''t''), (''t2'', ''t2''), (''s'', ''Subquery'')]) \<and>
   getitem (info (collect_sources cte_tree)) ''c'' = Some \<lparr>table_name = ''c'', columns = []\<rparr> \<and>
   getitem cte_result ''c'' = Some \<lparr>table_name = ''c'', columns = [''a'', ''b'']\<rparr> \<and>
   set (attributed cte_tree ''c'') \<subseteq> set [''a'', ''b'']"
proof -
  have h1: "set_iteration remdups" by (simp add: set_iteration_def)
  have h2: "parse_query remdups cte_tree = Inr cte_result" by code_simp
  have h3: "registrations cte_tree =
     [(''c'', ''CTE'')] @ (''c'', ''c'') #
     [(''t'', ''t''), (''t2'', ''t2''), (''s'', ''Subquery'')]"
    by code_simp
  have h4: "''c'' \<notin> set (map fst [(''t'', ''t''), (''t2'', ''t2''), (''s'', ''Subquery'')])"
    by simp
  have g: "getitem cte_result ''c'' = Some \<lparr>table_name = ''c'', columns = [''a'', ''b'']\<rparr>"
    by (simp add: cte_result_def)
  from C5_last_registration_wins[OF h1 h2 h3 h4] h1 h2 h3 h4 g show ?thesis by auto
qed

text \<open>
  C6. The keys of the returned dictionary are, in order, the first occurrences in the
  sequence made of the CTE aliases, then the table qualifiers, then the non-empty
  subquery aliases, then the prefixes of the qualified columns, each in traversal order.
  A key that is stored again keeps the place of its first store.
\<close>

theorem C6_key_order:
  assumes "parse_query it tree = Inr r"
  shows "distinct (map fst r) \<and>
         map fst r =
         first_occurrences (cte_names tree @ table_qualifiers tree @ subquery_aliases tree @
                            map table (qualified_columns tree))"
  using result_entries(1)[OF assms] by (simp add: key_sequence_def)

theorem C6_key_order_witness:
  "parse_query remdups cte_tree = Inr cte_result \<and>
   cte_names cte_tree = [''c''] \<and>
   table_qualifiers cte_tree = [''c'', ''t'', ''t2''] \<and>
   subquery_aliases cte_tree = [''s''] \<and>
   map table (qualified_columns cte_tree) = [''c'', ''c'', ''s'', ''u'', ''t'', ''c'', ''s''] \<and>
   map fst cte_result = [''c'', ''t'', ''t2'', ''s'', ''u''] \<and>
   map fst cte_result =
     first_occurrences (cte_names cte_tree @ table_qualifiers cte_tree @
                        subquery_aliases cte_tree @ map table (qualified_columns cte_tree))"
proof -
  have h: "parse_query remdups cte_tree = Inr cte_result" by code_simp
  have a: "cte_names cte_tree = [''c'']" by code_simp
  have b: "table_qualifiers cte_tree = [''c'', ''t'', ''t2'']" by code_simp
  have c: "subquery_aliases cte_tree = [''s'']" by code_simp
  have d: "map table (qualified_columns cte_tree) = [''c'', ''c'', ''s'', ''u'', ''t'', ''c'', ''s'']"
    by code_simp
  have e: "map fst cte_result = [''c'', ''t'', ''t2'', ''s'', ''u'']"
    by (simp add: cte_result_def)
  from C6_key_order[OF h] h a b c d e show ?thesis by simp
qed

text \<open>
  C7. The only choice the interpreter makes for the code is the order in which a set of
  strings is iterated, and \<^verbatim>\<open>sorted\<close> removes it: two runs on the same tree, each with
  its own iteration order, return the same result (the same error, or the same keys in the
  same order with the same table names and the same column lists).
\<close>

theorem C7_deterministic:
  assumes "set_iteration it1" and "set_iteration it2"
  shows "parse_query it1 tree = parse_query it2 tree"
proof -
  have "sort (it1 xs) = sort (it2 xs)" for xs
    by (simp add: sort_set_iteration[OF assms(1)] sort_set_iteration[OF assms(2)])
  then have "dedupe_step it1 = dedupe_step it2"
    by (intro ext) (simp add: dedupe_step_def)
  then show ?thesis
    by (simp add: parse_query_def run_def dedupe_def)
qed

theorem C7_deterministic_witness:
  "set_iteration remdups \<and> set_iteration (\<lambda>xs. rev (remdups xs)) \<and>
   parse_query remdups cte_tree = parse_query (\<lambda>xs. rev (remdups xs)) cte_tree \<and>
   parse_query remdups cte_tree = Inr cte_result"
proof -
  have h1: "set_iteration remdups" by (simp add: set_iteration_def)
  have h2: "set_iteration (\<lambda>xs. rev (remdups xs))" by (simp add: set_iteration_def)
  have h3: "parse_query remdups cte_tree = Inr cte_result" by code_simp
  from C7_deterministic[OF h1 h2, of cte_tree] h1 h2 h3 show ?thesis by simp
qed

text \<open>
  C9. An entry whose key is declared nowhere (it exists because a column carries the key
  as its prefix) has the key as its table name and at least one column. When the last
  entry of the returned dictionary is such an entry, the test of line 57 fails, so the
  fallback does not run.
\<close>

theorem C9_unknown_entries_nonempty:
  assumes "set_iteration it" and "parse_query it tree = Inr r"
  shows "(\<forall>k e. (k, e) \<in> set r \<and>
            k \<notin> set (cte_names tree) \<union> set (table_qualifiers tree) \<union> set (subquery_aliases tree)
            \<longrightarrow> table_name e = k \<and> columns e \<noteq> []) \<and>
         (fst (last r) \<notin> set (cte_names tree) \<union> set (table_qualifiers tree) \<union>
                           set (subquery_aliases tree)
            \<longrightarrow> \<not> fallback_fires (dedupe it (collect tree)))"
proof (intro conjI allI impI)
  let ?ks = "first_occurrences (key_sequence tree)"
  have keys: "map fst r = ?ks" by (rule result_entries(1)[OF assms(2)])
  then have dist: "distinct (map fst r)" by simp
  {
    fix k e
    assume a: "(k, e) \<in> set r \<and>
       k \<notin> set (cte_names tree) \<union> set (table_qualifiers tree) \<union> set (subquery_aliases tree)"
    then have g: "getitem r k = Some e" using getitem_member[OF dist] by blast
    from a have nreg: "k \<notin> set (map fst (registrations tree))"
      by (simp add: keys_registrations)
    from a have "k \<in> set (map fst r)" by force
    then have kk: "k \<in> set (key_sequence tree)" by (simp only: keys set_first_occurrences)
    with nreg have "k \<in> set (map table (qualified_columns tree))"
      by (simp add: key_sequence_declared declared_registrations)
    then have att: "attributed tree k \<noteq> []" by (simp add: attributed_Nil_iff)
    then have srt: "sort (it (attributed tree k)) \<noteq> []"
      by (simp add: set_iteration_Nil_iff[OF assms(1)])
    with g result_entries(2)[OF assms(2), of k] kk
    have "e = \<lparr>table_name = source_name tree k, columns = sort (it (attributed tree k))\<rparr>"
      by simp
    then show "table_name e = k" and "columns e \<noteq> []"
      using nreg srt by (simp_all add: source_name_unregistered)
  }
  assume u: "fst (last r) \<notin> set (cte_names tree) \<union> set (table_qualifiers tree) \<union>
                           set (subquery_aliases tree)"
  have ne: "key_sequence tree \<noteq> []" by (rule parse_query_Inr_keys[OF assms(2)])
  then have "?ks \<noteq> []" by (metis set_first_occurrences set_empty)
  then have r_ne: "r \<noteq> []" using keys by auto
  have lastk: "fst (last r) = last ?ks" using r_ne keys by (simp add: last_map[symmetric])
  have "last ?ks \<in> set (key_sequence tree)"
    using ne by (metis last_in_set set_first_occurrences set_empty)
  with u have "last ?ks \<in> set (map table (qualified_columns tree))"
    by (simp add: lastk key_sequence_declared declared_def)
  then have "attributed tree (last ?ks) \<noteq> []" by (simp add: attributed_Nil_iff)
  then have "sort (it (attributed tree (last ?ks))) \<noteq> []"
    by (simp add: set_iteration_Nil_iff[OF assms(1)])
  then show "\<not> fallback_fires (dedupe it (collect tree))"
    by (simp add: fallback_fires_iff[OF ne] last_columns_before_fallback[OF ne])
qed

text \<open>
  In \<open>cte_tree\<close> the last entry is the undeclared \<open>u\<close>: it has the column \<open>z\<close>, the test
  of line 57 fails, and the empty entry \<open>t2\<close> before it stays empty.
\<close>

theorem C9_unknown_entries_nonempty_witness:
  "set_iteration remdups \<and>
   parse_query remdups cte_tree = Inr cte_result \<and>
   (''u'', \<lparr>table_name = ''u'', columns = [''z'']\<rparr>) \<in> set cte_result \<and>
   ''u'' \<notin> set (cte_names cte_tree) \<union> set (table_qualifiers cte_tree) \<union>
            set (subquery_aliases cte_tree) \<and>
   fst (last cte_result) = ''u'' \<and>
   \<not> fallback_fires (dedupe remdups (collect cte_tree)) \<and>
   getitem cte_result ''t2'' = Some \<lparr>table_name = ''t2'', columns = []\<rparr>"
proof -
  have h1: "set_iteration remdups" by (simp add: set_iteration_def)
  have h2: "parse_query remdups cte_tree = Inr cte_result" by code_simp
  have h3: "(''u'', \<lparr>table_name = ''u'', columns = [''z'']\<rparr>) \<in> set cte_result"
    by (simp add: cte_result_def)
  have h4: "''u'' \<notin> set (cte_names cte_tree) \<union> set (table_qualifiers cte_tree) \<union>
            set (subquery_aliases cte_tree)"
    by code_simp
  have h5: "fst (last cte_result) = ''u''" by (simp add: cte_result_def)
  have h6: "getitem cte_result ''t2'' = Some \<lparr>table_name = ''t2'', columns = []\<rparr>"
    by (simp add: cte_result_def)
  from C9_unknown_entries_nonempty[OF h1 h2] h1 h2 h3 h4 h5 h6 show ?thesis by simp
qed

text \<open>
  C10, as the specification states it, fails: in \<open>shadow_tree\<close> the name \<open>x\<close> is the alias
  of a CTE and the qualifier of the table node named \<open>x\<close>, so the claim makes the final
  table name \<open>x\<close>; but step 3 stores after step 2, and the subquery aliased \<open>x\<close> leaves
  \<open>Subquery\<close>.
\<close>

theorem C10_cte_shadowed_by_subquery:
  "''x'' \<in> set (cte_names shadow_tree) \<and>
   map table_qualifier (find_all is_Table shadow_tree) = [''x''] \<and>
   map name (find_all is_Table shadow_tree) = [''x''] \<and>
   parse_query remdups shadow_tree = Inr [(''x'', \<lparr>table_name = ''Subquery'', columns = []\<rparr>)]"
  by code_simp

text \<open>
  C10, amended. When the alias \<open>k\<close> of a CTE is also the qualifier of a table node, the
  entry of \<open>k\<close> does not keep the table name that step 1 gave it: it ends with the name of
  the last table node whose qualifier is \<open>k\<close>, unless a subquery node has the alias \<open>k\<close>
  too, and then it ends with \<open>Subquery\<close>.
\<close>

theorem C10_cte_overwritten_by_table:
  assumes "parse_query it tree = Inr r"
    and "k \<in> set (cte_names tree)"
    and "find_all is_Table tree = pre @ t # post"
    and "table_qualifier t = k"
    and "k \<notin> set (map table_qualifier post)"
  shows "\<exists>e. getitem r k = Some e \<and>
             table_name e = (if k \<in> set (subquery_aliases tree) then ''Subquery'' else name t)"
proof -
  let ?sub = "filter (\<lambda>q. truthy (alias' q)) (find_all is_Subquery tree)"
  have kk: "k \<in> set (key_sequence tree)" using assms(2) by (simp add: key_sequence_def)
  have g: "getitem r k = Some \<lparr>table_name = source_name tree k,
             columns = (if k = last (first_occurrences (key_sequence tree)) \<and>
                           sort (it (attributed tree k)) = []
                        then all_columns tree else sort (it (attributed tree k)))\<rparr>"
    using result_entries(2)[OF assms(1), of k] kk by simp
  have sa: "subquery_aliases tree = map alias' ?sub"
    by (simp add: subquery_aliases_def filter_map comp_def)
  show ?thesis
  proof (cases "k \<in> set (subquery_aliases tree)")
    case True
    then have "\<exists>q \<in> set ?sub. alias' q = k" by (auto simp: sa)
    from split_list_last_prop[OF this]
    obtain s1 q s2 where s: "?sub = s1 @ q # s2" "\<forall>q' \<in> set s2. alias' q' \<noteq> k"
      and q: "alias' q = k"
      by blast
    have "registrations tree =
          (map (\<lambda>c. (alias' c, ''CTE'')) (find_all is_CTE tree) @
           map (\<lambda>t. (table_qualifier t, name t)) (find_all is_Table tree) @
           map (\<lambda>q. (alias' q, ''Subquery'')) s1) @ (k, ''Subquery'') #
           map (\<lambda>q. (alias' q, ''Subquery'')) s2"
      by (simp add: registrations_def s(1) q)
    moreover have "k \<notin> set (map fst (map (\<lambda>q. (alias' q, ''Subquery'')) s2))"
      using s(2) by (auto simp: comp_def)
    ultimately have "source_name tree k = ''Subquery''"
      by (rule source_name_last_registration)
    with g True show ?thesis by simp
  next
    case False
    then have nosub: "\<forall>q \<in> set ?sub. alias' q \<noteq> k" by (auto simp: sa)
    have "registrations tree =
          (map (\<lambda>c. (alias' c, ''CTE'')) (find_all is_CTE tree) @
           map (\<lambda>t. (table_qualifier t, name t)) pre) @ (k, name t) #
          (map (\<lambda>t. (table_qualifier t, name t)) post @
           map (\<lambda>q. (alias' q, ''Subquery'')) ?sub)"
      by (simp add: registrations_def assms(3,4))
    moreover have "k \<notin> set (map fst (map (\<lambda>t. (table_qualifier t, name t)) post @
           map (\<lambda>q. (alias' q, ''Subquery'')) ?sub))"
      using assms(5) nosub by (auto simp: comp_def)
    ultimately have "source_name tree k = name t"
      by (rule source_name_last_registration)
    with g False show ?thesis by simp
  qed
qed

text \<open>
  In \<open>cte_tree\<close> the CTE \<open>c\<close> is read by the table node \<open>c\<close> and no subquery is aliased
  \<open>c\<close>: the entry ends with the table's name, not with \<open>CTE\<close>.
\<close>

theorem C10_cte_overwritten_by_table_witness:
  "parse_query remdups cte_tree = Inr cte_result \<and>
   ''c'' \<in> set (cte_names cte_tree) \<and>
   find_all is_Table cte_tree = [] @ Table ''c'' [] # [Table ''t'' [], Table ''t2'' []] \<and>
   table_qualifier (Table ''c'' []) = ''c'' \<and>
   ''c'' \<notin> set (map table_qualifier [Table ''t'' [], Table ''t2'' []]) \<and>
   ''c'' \<notin> set (subquery_aliases cte_tree) \<and>
   (\<exists>e. getitem cte_result ''c'' = Some e \<and> table_name e = name (Table ''c'' []))"
proof -
  have h1: "parse_query remdups cte_tree = Inr cte_result" by code_simp
  have h2: "''c'' \<in> set (cte_names cte_tree)" by code_simp
  have h3: "find_all is_Table cte_tree = [] @ Table ''c'' [] # [Table ''t'' [], Table ''t2'' []]"
    by code_simp
  have h4: "table_qualifier (Table ''c'' []) = ''c''" by code_simp
  have h5: "''c'' \<notin> set (map table_qualifier [Table ''t'' [], Table ''t2'' []])" by code_simp
  have h6: "''c'' \<notin> set (subquery_aliases cte_tree)" by code_simp
  from C10_cte_overwritten_by_table[OF h1 h2 h3 h4 h5] h1 h2 h3 h4 h5 h6
  show ?thesis by simp
qed

end
